theory Spec2Isabelle
  imports Complex_Main
begin

section \<open>Scoring and recommendation core of the self-assessment tool\<close>

text \<open>
  This theory embeds the two functions of \<^verbatim>\<open>app/logic.py\<close> that both front ends
  call: \<^verbatim>\<open>calculate_scores\<close> and \<^verbatim>\<open>generate_recommendations\<close>.

  Conventions of the embedding.
  \<^item> A question is a Python dict read from JSON. The code reads four keys of it; each is an
    optional field here, \<open>None\<close> meaning that the key is absent, so that \<^verbatim>\<open>q["weight"]\<close>
    on a dict without that key is a \<^verbatim>\<open>KeyError\<close> of the model too.
  \<^item> Weights are Python integers (the code annotates the per-pillar sums as
    \<^verbatim>\<open>Dict[str, int]\<close>), hence \<open>int\<close>.
  \<^item> The true division \<^verbatim>\<open>/\<close> of two Python integers produces a float, or raises when
    the divisor is zero or the correctly rounded quotient is beyond the range of a double
    (\<open>true_divide\<close>). Apart from these two errors, percentages and scores are modelled as
    exact rationals: rounding of IEEE doubles is abstracted away, and so is the saturation
    to infinity of the float multiplication and subtraction, which do not raise.
  \<^item> A Python \<^verbatim>\<open>dict\<close> that the code iterates over is an association list in
    insertion order with distinct keys; the answers dict, which is only looked up, is a map.
  \<^item> A Python \<^verbatim>\<open>str\<close> is a \<open>string\<close>; a character outside ASCII is written as its
    UTF-8 bytes. Only equality and emptiness of strings are used by the code.
\<close>

subsection \<open>Errors and data\<close>

datatype error = KeyError string | ZeroDivisionError | OverflowError

record question =
  qid :: "string option"
  pillar :: "string option"
  weight :: "int option"
  good_answer :: "string option"

record summary =
  risk_points :: int
  max_risk :: int
  risk_percentage :: rat
  security_score :: rat
  risk_level :: string

text \<open>The local variables that the scoring loop of \<^verbatim>\<open>calculate_scores\<close> mutates.\<close>

record loop_state =
  st_risk_points :: int
  st_pillar_max :: "(string \<times> int) list"
  st_pillar_risk :: "(string \<times> int) list"

subsection \<open>Insertion-ordered dictionaries\<close>

text \<open>\<^verbatim>\<open>d.get(k, default)\<close>\<close>

definition dict_get :: "('k \<times> 'v) list \<Rightarrow> 'k \<Rightarrow> 'v \<Rightarrow> 'v" where
  "dict_get d k dflt = (case map_of d k of None \<Rightarrow> dflt | Some v \<Rightarrow> v)"

text \<open>\<^verbatim>\<open>d[k] = v\<close>: an existing key keeps its position, a new key goes to the end.\<close>

fun dict_set :: "('k \<times> 'v) list \<Rightarrow> 'k \<Rightarrow> 'v \<Rightarrow> ('k \<times> 'v) list" where
  "dict_set [] k v = [(k, v)]"
| "dict_set ((k', v') # d) k v =
     (if k' = k then (k, v) # d else (k', v') # dict_set d k v)"

text \<open>\<^verbatim>\<open>d.setdefault(k, v)\<close>, used as a statement.\<close>

definition dict_setdefault :: "('k \<times> 'v) list \<Rightarrow> 'k \<Rightarrow> 'v \<Rightarrow> ('k \<times> 'v) list" where
  "dict_setdefault d k v = (case map_of d k of None \<Rightarrow> dict_set d k v | Some _ \<Rightarrow> d)"

subsection \<open>True division of integers\<close>

text \<open>
  \<^verbatim>\<open>a / b\<close> on Python integers rounds the exact quotient to the nearest double, ties to
  even, and raises \<^verbatim>\<open>OverflowError\<close> when the rounded value would be \<open>2 ^ 1024\<close> or more
  in magnitude. The largest double is \<open>2 ^ 1024 - 2 ^ 971\<close>, so this happens exactly from
  the midpoint \<open>2 ^ 1024 - 2 ^ 970\<close> on.
\<close>

definition double_overflow_bound :: rat where
  "double_overflow_bound = 2 ^ 1024 - 2 ^ 970"

definition true_divide :: "int \<Rightarrow> int \<Rightarrow> error + rat" where
  "true_divide a b =
     (if b = 0 then Inl ZeroDivisionError
      else if double_overflow_bound \<le> \<bar>of_int a / of_int b\<bar> then Inl OverflowError
      else Inr (of_int a / of_int b))"

subsection \<open>\<^verbatim>\<open>calculate_scores\<close>\<close>

text \<open>\<^verbatim>\<open>q.get("good_answer", "yes")\<close>\<close>

definition get_good_answer :: "question \<Rightarrow> string" where
  "get_good_answer q = (case good_answer q of None \<Rightarrow> ''yes'' | Some g \<Rightarrow> g)"

text \<open>
  \<^verbatim>\<open>sum(q["weight"] for q in questions)\<close>: the running total starts at 0 and the first
  dict without a weight raises.
\<close>

fun sum_weights :: "question list \<Rightarrow> int \<Rightarrow> error + int" where
  "sum_weights [] acc = Inr acc"
| "sum_weights (q # qs) acc =
     (case weight q of
        None \<Rightarrow> Inl (KeyError ''weight'')
      | Some w \<Rightarrow> sum_weights qs (acc + w))"

text \<open>
  One iteration of \<^verbatim>\<open>for q in questions\<close>. The three subscripts are evaluated in the
  order of the source, and all of them before the first assignment to a dict.
\<close>

definition score_step :: "(string \<rightharpoonup> string) \<Rightarrow> loop_state \<Rightarrow> question \<Rightarrow> error + loop_state" where
  "score_step answers st q =
     (case pillar q of
        None \<Rightarrow> Inl (KeyError ''pillar'')
      | Some p \<Rightarrow>
     (case weight q of
        None \<Rightarrow> Inl (KeyError ''weight'')
      | Some w \<Rightarrow>
     (case qid q of
        None \<Rightarrow> Inl (KeyError ''id'')
      | Some i \<Rightarrow>
          let good = get_good_answer q;
              user_answer = answers i;
              pmax = dict_set (st_pillar_max st) p (dict_get (st_pillar_max st) p 0 + w)
          in if user_answer \<noteq> None \<and> user_answer \<noteq> Some good
             then Inr \<lparr>st_risk_points = st_risk_points st + w,
                       st_pillar_max = pmax,
                       st_pillar_risk =
                         dict_set (st_pillar_risk st) p (dict_get (st_pillar_risk st) p 0 + w)\<rparr>
             else Inr \<lparr>st_risk_points = st_risk_points st,
                       st_pillar_max = pmax,
                       st_pillar_risk = dict_setdefault (st_pillar_risk st) p 0\<rparr>)))"

fun score_loop :: "(string \<rightharpoonup> string) \<Rightarrow> question list \<Rightarrow> loop_state \<Rightarrow> error + loop_state" where
  "score_loop answers [] st = Inr st"
| "score_loop answers (q # qs) st =
     (case score_step answers st q of
        Inl e \<Rightarrow> Inl e
      | Inr st' \<Rightarrow> score_loop answers qs st')"

text \<open>\<^verbatim>\<open>for pillar, max_w in pillar_max.items()\<close>\<close>

fun pillar_loop ::
  "(string \<times> int) list \<Rightarrow> (string \<times> int) list \<Rightarrow> (string \<times> rat) list \<Rightarrow>
     error + (string \<times> rat) list" where
  "pillar_loop prisk [] pillar_scores = Inr pillar_scores"
| "pillar_loop prisk ((p, max_w) # items) pillar_scores =
     (let risk_w = dict_get prisk p 0 in
      if max_w = 0 then pillar_loop prisk items (dict_set pillar_scores p 100)
      else
        (case true_divide risk_w max_w of
           Inl e \<Rightarrow> Inl e
         | Inr ratio \<Rightarrow>
             let pillar_risk_pct = ratio * 100;
                 pillar_security = 100 - pillar_risk_pct
             in pillar_loop prisk items (dict_set pillar_scores p pillar_security)))"

definition initial_state :: loop_state where
  "initial_state = \<lparr>st_risk_points = 0, st_pillar_max = [], st_pillar_risk = []\<rparr>"

text \<open>
  The function itself. The division for the overall percentage comes before the summary
  is built, the divisions for the pillars come after it; an error of either leaves no
  result.
\<close>

definition calculate_scores ::
  "question list \<Rightarrow> (string \<rightharpoonup> string) \<Rightarrow> error + (summary \<times> (string \<times> rat) list)" where
  "calculate_scores questions answers =
     (case sum_weights questions 0 of
        Inl e \<Rightarrow> Inl e
      | Inr mr \<Rightarrow>
     (case score_loop answers questions initial_state of
        Inl e \<Rightarrow> Inl e
      | Inr st \<Rightarrow>
     (case (if mr = 0 then Inr 0
            else (case true_divide (st_risk_points st) mr of
                    Inl e \<Rightarrow> Inl e
                  | Inr ratio \<Rightarrow> Inr (ratio * 100))) of
        Inl e \<Rightarrow> Inl e
      | Inr rpct \<Rightarrow>
          let score = 100 - rpct;
              level = (if score \<ge> 80 then ''LOW''
                       else if score \<ge> 50 then ''MEDIUM''
                       else ''HIGH'');
              result = \<lparr>risk_points = st_risk_points st,
                        max_risk = mr,
                        risk_percentage = rpct,
                        security_score = score,
                        risk_level = level\<rparr>
          in (case pillar_loop (st_pillar_risk st) (st_pillar_max st) [] of
                Inl e \<Rightarrow> Inl e
              | Inr pillar_scores \<Rightarrow> Inr (result, pillar_scores)))))"

subsection \<open>\<^verbatim>\<open>generate_recommendations\<close>\<close>

definition recommendation_map :: "(string \<times> string) list" where
  "recommendation_map =
   [(''Q1'',
      ''Create and keep an up-to-date list of all company devices (laptops, phones, servers, tablets) and review it regularly.''),
    (''Q2'',
      ''Define an approved software list and uninstall or block software that is not needed or not approved.''),
    (''Q3'',
      ''Identify where sensitive data is stored, label it (e.g. confidential), and limit where it is copied or shared.''),
    (''Q4'',
      ''Enable multi-factor authentication (MFA) for all remote access, email accounts and key business systems.''),
    (''Q5'',
      ''Change all default passwords on devices, routers and systems, and require strong unique passwords.''),
    (''Q6'',
      ''Configure computers and mobile devices to automatically lock after a short period of inactivity (5'' @ [CHR 0xE2, CHR 0x80, CHR 0x93] @ ''10 minutes).''),
    (''Q7'',
      ''Limit admin accounts to a small number of trusted users and use standard accounts for day-to-day work.''),
    (''Q8'',
      ''Ensure device firewalls are turned on and use a router or gateway with a firewall for your business network.''),
    (''Q9'',
      ''Turn on automatic updates for operating systems and key software, and apply critical patches promptly.''),
    (''Q10'',
      ''Install reputable antivirus or endpoint protection on all devices and make sure it is kept up to date.''),
    (''Q11'',
      ''Enable full-disk encryption on laptops and mobile devices (e.g. BitLocker, FileVault) to protect lost or stolen devices.''),
    (''Q12'',
      ''Create a separate guest Wi-Fi network that only provides internet access and cannot reach your business systems.''),
    (''Q13'',
      ''Write a simple incident response plan describing who to contact and what steps to follow if an incident occurs, and review it yearly.''),
    (''Q14'',
      ''Maintain an up-to-date list of emergency contacts (IT support, cloud providers, bank, legal/cyber support) and keep it easily accessible.''),
    (''Q15'',
      ''Set up automatic weekly (or more frequent) backups of important business data to a secure, offsite or cloud location.''),
    (''Q16'',
      ''Regularly test restoring files from your backups and document the steps so you know recovery will work in an emergency.''),
    (''Q17'',
      ''Provide basic cybersecurity awareness training for all staff at induction and at least once per year, and record attendance.''),
    (''Q18'',
      ''Create an offboarding checklist to immediately remove system, email and remote access when someone leaves the business.''),
    (''Q19'',
      ''Assess third-party vendors for basic security (e.g. encryption, access controls, incident handling) before sharing sensitive data.''),
    (''Q20'',
      ''Document how you will detect, assess and respond to privacy or data breaches in line with Australian privacy obligations.'')]"

text \<open>
  One iteration of the loop over the questions. The loop is written over an arbitrary
  id-to-text table \<open>rmap\<close>; the function itself fixes the table above. The truth test
  \<^verbatim>\<open>if rec_text\<close> rejects both a missing entry and an empty text.
\<close>

definition rec_step ::
  "(string \<times> string) list \<Rightarrow> (string \<rightharpoonup> string) \<Rightarrow> string list \<Rightarrow> question \<Rightarrow> error + string list" where
  "rec_step rmap answers recs q =
     (case qid q of
        None \<Rightarrow> Inl (KeyError ''id'')
      | Some i \<Rightarrow>
          let good = get_good_answer q;
              user_answer = answers i
          in if user_answer \<noteq> None \<and> user_answer \<noteq> Some good
             then (case map_of rmap i of
                     None \<Rightarrow> Inr recs
                   | Some rec_text \<Rightarrow>
                       if rec_text \<noteq> [] \<and> rec_text \<notin> set recs
                       then Inr (recs @ [rec_text])
                       else Inr recs)
             else Inr recs)"

fun rec_loop ::
  "(string \<times> string) list \<Rightarrow> (string \<rightharpoonup> string) \<Rightarrow> question list \<Rightarrow> string list \<Rightarrow> error + string list" where
  "rec_loop rmap answers [] recs = Inr recs"
| "rec_loop rmap answers (q # qs) recs =
     (case rec_step rmap answers recs q of
        Inl e \<Rightarrow> Inl e
      | Inr recs' \<Rightarrow> rec_loop rmap answers qs recs')"

definition generate_recommendations ::
  "question list \<Rightarrow> (string \<rightharpoonup> string) \<Rightarrow> error + string list" where
  "generate_recommendations questions answers = rec_loop recommendation_map answers questions []"

subsection \<open>Vocabulary for stating the properties\<close>

text \<open>
  The definitions below are not part of the program. They name what the properties talk
  about: which records carry the three keys that the code subscripts, which questions were
  answered unsafely, sums of weights, the pillars in order of first appearance, and the
  closed forms that the results are compared with.
\<close>

definition well_formed :: "question \<Rightarrow> bool" where
  "well_formed q \<longleftrightarrow> qid q \<noteq> None \<and> pillar q \<noteq> None \<and> weight q \<noteq> None"

definition answered_unsafely :: "(string \<rightharpoonup> string) \<Rightarrow> question \<Rightarrow> bool" where
  "answered_unsafely answers q =
     (case qid q of
        None \<Rightarrow> False
      | Some i \<Rightarrow>
          (case answers i of
             None \<Rightarrow> False
           | Some a \<Rightarrow> a \<noteq> (case good_answer q of None \<Rightarrow> ''yes'' | Some g \<Rightarrow> g)))"

definition total_weight :: "question list \<Rightarrow> int" where
  "total_weight qs = sum_list (map (\<lambda>q. the (weight q)) qs)"

definition unsafe_weight :: "(string \<rightharpoonup> string) \<Rightarrow> question list \<Rightarrow> int" where
  "unsafe_weight answers qs = total_weight (filter (answered_unsafely answers) qs)"

definition in_pillar :: "string \<Rightarrow> question list \<Rightarrow> question list" where
  "in_pillar p qs = filter (\<lambda>q. pillar q = Some p) qs"

definition pillars :: "question list \<Rightarrow> string list" where
  "pillars qs = map (\<lambda>q. the (pillar q)) qs"

fun first_occurrences :: "'a list \<Rightarrow> 'a list" where
  "first_occurrences [] = []"
| "first_occurrences (x # xs) = x # filter (\<lambda>y. y \<noteq> x) (first_occurrences xs)"

definition loop_inv :: "(string \<rightharpoonup> string) \<Rightarrow> question list \<Rightarrow> loop_state \<Rightarrow> bool" where
  "loop_inv ans qs st \<longleftrightarrow>
     st_risk_points st = unsafe_weight ans qs \<and>
     map fst (st_pillar_max st) = first_occurrences (pillars qs) \<and>
     map fst (st_pillar_risk st) = first_occurrences (pillars qs) \<and>
     (\<forall>p. dict_get (st_pillar_max st) p 0 = total_weight (in_pillar p qs)) \<and>
     (\<forall>p. dict_get (st_pillar_risk st) p 0 = unsafe_weight ans (in_pillar p qs))"

definition pillar_score :: "(string \<rightharpoonup> string) \<Rightarrow> question list \<Rightarrow> string \<Rightarrow> rat" where
  "pillar_score ans qs p =
     (let pmax = total_weight (in_pillar p qs);
          prisk = unsafe_weight ans (in_pillar p qs)
      in if pmax = 0 then 100 else 100 - (of_int prisk / of_int pmax) * 100)"

definition overall_risk_percentage :: "(string \<rightharpoonup> string) \<Rightarrow> question list \<Rightarrow> rat" where
  "overall_risk_percentage ans qs =
     (if total_weight qs = 0 then 0
      else (of_int (unsafe_weight ans qs) / of_int (total_weight qs)) * 100)"

definition tier :: "rat \<Rightarrow> string" where
  "tier score = (if score \<ge> 80 then ''LOW'' else if score \<ge> 50 then ''MEDIUM'' else ''HIGH'')"

definition in_double_range :: "int \<Rightarrow> int \<Rightarrow> bool" where
  "in_double_range a b \<longleftrightarrow> b = 0 \<or> \<bar>of_int a / of_int b :: rat\<bar> < double_overflow_bound"

definition no_overflow :: "(string \<rightharpoonup> string) \<Rightarrow> question list \<Rightarrow> bool" where
  "no_overflow ans qs \<longleftrightarrow>
     in_double_range (unsafe_weight ans qs) (total_weight qs) \<and>
     (\<forall>p\<in>set (pillars qs).
        in_double_range (unsafe_weight ans (in_pillar p qs)) (total_weight (in_pillar p qs)))"

definition closed_form ::
  "(string \<rightharpoonup> string) \<Rightarrow> question list \<Rightarrow> summary \<times> (string \<times> rat) list" where
  "closed_form ans qs =
     (\<lparr>risk_points = unsafe_weight ans qs,
       max_risk = total_weight qs,
       risk_percentage = overall_risk_percentage ans qs,
       security_score = 100 - overall_risk_percentage ans qs,
       risk_level = tier (100 - overall_risk_percentage ans qs)\<rparr>,
      map (\<lambda>p. (p, pillar_score ans qs p)) (first_occurrences (pillars qs)))"

definition qualifying_text ::
  "(string \<times> string) list \<Rightarrow> (string \<rightharpoonup> string) \<Rightarrow> question \<Rightarrow> string option" where
  "qualifying_text rmap answers q =
     (if answered_unsafely answers q
      then (case map_of rmap (the (qid q)) of
              None \<Rightarrow> None
            | Some t \<Rightarrow> if t = [] then None else Some t)
      else None)"

subsection \<open>Example catalogs\<close>

text \<open>
  The first two questions and the answers to them are the end-to-end scenario of the
  specification. The third question has no \<^verbatim>\<open>good_answer\<close> key, the fourth has
  \<^verbatim>\<open>"no"\<close> as its good answer, and the last one has no \<^verbatim>\<open>pillar\<close> key.
\<close>

definition ex_q1 :: question where
  "ex_q1 = \<lparr>qid = Some ''Q1'', pillar = Some ''Identify'', weight = Some 10, good_answer = Some ''yes''\<rparr>"

definition ex_q2 :: question where
  "ex_q2 = \<lparr>qid = Some ''Q2'', pillar = Some ''Protect'', weight = Some 20, good_answer = Some ''yes''\<rparr>"

definition ex_q3 :: question where
  "ex_q3 = \<lparr>qid = Some ''Q3'', pillar = Some ''Protect'', weight = Some 20, good_answer = None\<rparr>"

definition ex_q4 :: question where
  "ex_q4 = \<lparr>qid = Some ''Q4'', pillar = Some ''Identify'', weight = Some 10, good_answer = Some ''no''\<rparr>"

definition ex_no_pillar :: question where
  "ex_no_pillar = \<lparr>qid = Some ''Q2'', pillar = None, weight = Some 20, good_answer = Some ''yes''\<rparr>"

text \<open>
  Two questions of one pillar whose weights, of mixed sign, sum to 1: answering the first
  one unsafely makes the quotient \<open>risk_points / max_risk\<close> equal to \<open>10 ^ 309\<close>, beyond
  the range of a double.
\<close>

definition ex_huge :: question where
  "ex_huge = \<lparr>qid = Some ''a'', pillar = Some ''P'', weight = Some (10 ^ 309), good_answer = None\<rparr>"

definition ex_huge_negative :: question where
  "ex_huge_negative =
     \<lparr>qid = Some ''b'', pillar = Some ''P'', weight = Some (1 - 10 ^ 309), good_answer = None\<rparr>"

definition ex_answers :: "string \<rightharpoonup> string" where
  "ex_answers = [''Q1'' \<mapsto> ''no'', ''Q2'' \<mapsto> ''yes'', ''Q3'' \<mapsto> ''yes'', ''Q4'' \<mapsto> ''no'']"

definition ex_text_q1 :: string where
  "ex_text_q1 = ''Create and keep an up-to-date list of all company devices (laptops, phones, servers, tablets) and review it regularly.''"

section \<open>Auxiliary facts\<close>

lemma set_first_occurrences [simp]: "set (first_occurrences xs) = set xs"
  by (induction xs) auto

lemma distinct_first_occurrences [simp]: "distinct (first_occurrences xs)"
  by (induction xs) auto

lemma first_occurrences_snoc:
  "first_occurrences (xs @ [x]) =
     (if x \<in> set xs then first_occurrences xs else first_occurrences xs @ [x])"
  by (induction xs) auto

lemma keys_dict_set:
  "map fst (dict_set d k v) = (if k \<in> set (map fst d) then map fst d else map fst d @ [k])"
  by (induction d) force+

lemma map_of_dict_set: "map_of (dict_set d k v) = (map_of d)(k \<mapsto> v)"
  by (induction d) (auto simp: fun_eq_iff)

lemma dict_get_dict_set:
  "dict_get (dict_set d k v) k' dflt = (if k' = k then v else dict_get d k' dflt)"
  by (simp add: dict_get_def map_of_dict_set)

lemma dict_set_fresh: "k \<notin> set (map fst d) \<Longrightarrow> dict_set d k v = d @ [(k, v)]"
  by (induction d) auto

lemma keys_dict_setdefault:
  "map fst (dict_setdefault d k v) = (if k \<in> set (map fst d) then map fst d else map fst d @ [k])"
proof (cases "map_of d k")
  case None
  then show ?thesis
    by (simp add: dict_setdefault_def keys_dict_set)
next
  case (Some a)
  then have "k \<in> set (map fst d)"
    by (metis map_of_eq_None_iff option.distinct(1) set_map)
  with Some show ?thesis
    by (simp add: dict_setdefault_def)
qed

lemma dict_get_dict_setdefault:
  "dict_get (dict_setdefault d k dflt) k' dflt = dict_get d k' dflt"
  by (auto simp: dict_setdefault_def dict_get_dict_set split: option.splits)
     (simp add: dict_get_def)

lemma sum_weights_present:
  "\<forall>q\<in>set qs. weight q \<noteq> None \<Longrightarrow> sum_weights qs acc = Inr (acc + total_weight qs)"
  by (induction qs arbitrary: acc) (auto simp: total_weight_def)

lemma sum_weights_missing:
  "\<exists>q\<in>set qs. weight q = None \<Longrightarrow> sum_weights qs acc = Inl (KeyError ''weight'')"
  by (induction qs arbitrary: acc) (auto split: option.splits)

lemma score_loop_snoc:
  "score_loop ans (qs @ [q]) st =
     (case score_loop ans qs st of Inl e \<Rightarrow> Inl e | Inr st' \<Rightarrow> score_step ans st' q)"
  by (induction qs arbitrary: st) (auto split: sum.splits)

lemma score_step_present:
  assumes "qid q = Some i" "pillar q = Some p" "weight q = Some w"
  shows "score_step ans st q =
    Inr \<lparr>st_risk_points = st_risk_points st + (if answered_unsafely ans q then w else 0),
         st_pillar_max = dict_set (st_pillar_max st) p (dict_get (st_pillar_max st) p 0 + w),
         st_pillar_risk =
           (if answered_unsafely ans q
            then dict_set (st_pillar_risk st) p (dict_get (st_pillar_risk st) p 0 + w)
            else dict_setdefault (st_pillar_risk st) p 0)\<rparr>"
  using assms
  by (auto simp: score_step_def answered_unsafely_def get_good_answer_def Let_def
      split: option.splits)

lemma loop_inv_initial: "loop_inv ans [] initial_state"
  by (simp add: loop_inv_def initial_state_def unsafe_weight_def total_weight_def
      in_pillar_def pillars_def dict_get_def)

lemma loop_inv_step:
  assumes wf: "well_formed q" and inv: "loop_inv ans qs st"
  shows "\<exists>st'. score_step ans st q = Inr st' \<and> loop_inv ans (qs @ [q]) st'"
proof -
  from wf obtain i p w where q: "qid q = Some i" "pillar q = Some p" "weight q = Some w"
    by (auto simp: well_formed_def)
  note step = score_step_present [OF q, of ans st]
  have keys: "set (pillars qs) = set (map fst (st_pillar_max st))"
    "set (pillars qs) = set (map fst (st_pillar_risk st))"
    using inv by (simp_all add: loop_inv_def)
  show ?thesis
    unfolding step using inv q keys
    by (auto simp: loop_inv_def unsafe_weight_def total_weight_def in_pillar_def pillars_def
        first_occurrences_snoc keys_dict_set keys_dict_setdefault dict_get_dict_set
        dict_get_dict_setdefault)
qed

lemma score_loop_inv:
  "\<forall>q\<in>set qs. well_formed q \<Longrightarrow>
     \<exists>st. score_loop ans qs initial_state = Inr st \<and> loop_inv ans qs st"
proof (induction qs rule: rev_induct)
  case Nil
  show ?case by (simp add: loop_inv_initial)
next
  case (snoc q qs)
  then obtain st where st: "score_loop ans qs initial_state = Inr st" "loop_inv ans qs st"
    by auto
  from snoc.prems have "well_formed q" by simp
  from loop_inv_step [OF this st(2)] st(1) show ?case
    by (simp add: score_loop_snoc)
qed

lemma score_loop_Inr_well_formed:
  "score_loop ans qs st = Inr st' \<Longrightarrow> \<forall>q\<in>set qs. well_formed q"
  by (induction qs arbitrary: st)
     (auto simp: score_step_def well_formed_def split: sum.splits option.splits)

lemma double_overflow_bound_gt_1: "1 < double_overflow_bound"
  by (simp add: double_overflow_bound_def)

lemma true_divide_in_range:
  "b \<noteq> 0 \<Longrightarrow> in_double_range a b \<Longrightarrow> true_divide a b = Inr (of_int a / of_int b)"
  by (simp add: true_divide_def in_double_range_def)

lemma true_divide_out_of_range:
  "\<not> in_double_range a b \<Longrightarrow> true_divide a b = Inl OverflowError"
  by (simp add: true_divide_def in_double_range_def)

lemma in_double_range_within:
  assumes "\<bar>a\<bar> \<le> \<bar>b\<bar>"
  shows "in_double_range a b"
proof (cases "b = 0")
  case True
  then show ?thesis by (simp add: in_double_range_def)
next
  case False
  then have pos: "(0::rat) < \<bar>of_int b\<bar>" by simp
  have "\<bar>of_int a :: rat\<bar> \<le> \<bar>of_int b\<bar>"
    using assms by (metis of_int_abs of_int_le_iff)
  then have "\<bar>of_int a / of_int b :: rat\<bar> \<le> 1"
    using pos by (simp add: abs_divide)
  with double_overflow_bound_gt_1 show ?thesis
    by (simp add: in_double_range_def)
qed

lemma true_divide_within:
  "b \<noteq> 0 \<Longrightarrow> \<bar>a\<bar> \<le> \<bar>b\<bar> \<Longrightarrow> true_divide a b = Inr (of_int a / of_int b)"
  by (simp add: true_divide_in_range in_double_range_within)

lemma pillar_loop_fresh:
  "distinct (map fst items) \<Longrightarrow> set (map fst items) \<inter> set (map fst acc) = {} \<Longrightarrow>
   pillar_loop prisk items acc =
     (if \<forall>item\<in>set items. in_double_range (dict_get prisk (fst item) 0) (snd item)
      then Inr (acc @ map (\<lambda>(p, max_w). (p, if max_w = 0 then 100
                  else 100 - (of_int (dict_get prisk p 0) / of_int max_w) * 100)) items)
      else Inl OverflowError)"
proof (induction items arbitrary: acc)
  case Nil
  show ?case by simp
next
  case (Cons item items)
  obtain p max_w where item: "item = (p, max_w)" by (cases item)
  from Cons.prems item have fresh: "p \<notin> set (map fst acc)" by auto
  have step: "pillar_loop prisk items (acc @ [(p, v)]) =
     (if \<forall>item\<in>set items. in_double_range (dict_get prisk (fst item) 0) (snd item)
      then Inr ((acc @ [(p, v)]) @ map (\<lambda>(p, max_w). (p, if max_w = 0 then 100
                  else 100 - (of_int (dict_get prisk p 0) / of_int max_w) * 100)) items)
      else Inl OverflowError)" for v
    using Cons.prems item by (intro Cons.IH) auto
  show ?case
  proof (cases "max_w = 0")
    case True
    then show ?thesis
      by (simp add: item dict_set_fresh [OF fresh] step in_double_range_def)
  next
    case nonzero: False
    show ?thesis
    proof (cases "in_double_range (dict_get prisk p 0) max_w")
      case True
      then show ?thesis
        using nonzero
        by (simp add: item dict_set_fresh [OF fresh] step true_divide_in_range Let_def)
    next
      case False
      then show ?thesis
        using nonzero by (simp add: item true_divide_out_of_range)
    qed
  qed
qed

lemma dict_get_member:
  "distinct (map fst d) \<Longrightarrow> (k, v) \<in> set d \<Longrightarrow> dict_get d k dflt = v"
  by (simp add: dict_get_def)

lemma calculate_scores_cases:
  assumes wf: "\<forall>q\<in>set qs. well_formed q"
  shows "calculate_scores qs ans =
    (if no_overflow ans qs then Inr (closed_form ans qs) else Inl OverflowError)"
proof -
  from wf have "\<forall>q\<in>set qs. weight q \<noteq> None" by (simp add: well_formed_def)
  then have sum: "sum_weights qs 0 = Inr (total_weight qs)"
    by (simp add: sum_weights_present)
  from score_loop_inv [OF wf] obtain st where
    loop: "score_loop ans qs initial_state = Inr st" and inv: "loop_inv ans qs st"
    by blast
  have dist: "distinct (map fst (st_pillar_max st))"
    using inv by (simp add: loop_inv_def)
  have keys: "map fst (st_pillar_max st) = first_occurrences (pillars qs)"
    using inv by (simp add: loop_inv_def)
  from inv have rp: "st_risk_points st = unsafe_weight ans qs"
    by (simp add: loop_inv_def)
  have pmax: "max_w = total_weight (in_pillar p qs)"
    if "(p, max_w) \<in> set (st_pillar_max st)" for p max_w
  proof -
    from dict_get_member [OF dist that] have "dict_get (st_pillar_max st) p 0 = max_w" .
    with inv show ?thesis by (simp add: loop_inv_def)
  qed
  have prisk: "dict_get (st_pillar_risk st) p 0 = unsafe_weight ans (in_pillar p qs)" for p
    using inv by (simp add: loop_inv_def)
  have entry: "(if max_w = 0 then 100
                else 100 - (of_int (dict_get (st_pillar_risk st) p 0) / of_int max_w) * 100)
               = pillar_score ans qs p"
    if "(p, max_w) \<in> set (st_pillar_max st)" for p max_w
    using pmax [OF that] by (simp add: prisk pillar_score_def Let_def)
  have "map (\<lambda>(p, max_w). (p, if max_w = 0 then 100
                  else 100 - (of_int (dict_get (st_pillar_risk st) p 0) / of_int max_w) * 100))
          (st_pillar_max st) =
      map (\<lambda>(p, max_w). (p, pillar_score ans qs p)) (st_pillar_max st)"
    using entry by (simp add: case_prod_unfold)
  also have "\<dots> = map (\<lambda>p. (p, pillar_score ans qs p)) (map fst (st_pillar_max st))"
    by (simp add: case_prod_unfold comp_def)
  also have "\<dots> = map (\<lambda>p. (p, pillar_score ans qs p)) (first_occurrences (pillars qs))"
    by (simp only: keys)
  finally have scores: "map (\<lambda>(p, max_w). (p, if max_w = 0 then 100
                  else 100 - (of_int (dict_get (st_pillar_risk st) p 0) / of_int max_w) * 100))
          (st_pillar_max st) =
      map (\<lambda>p. (p, pillar_score ans qs p)) (first_occurrences (pillars qs))" .
  have "set (pillars qs) = fst ` set (st_pillar_max st)"
    using keys by (metis set_first_occurrences set_map)
  then have all_in_range: "(\<forall>item\<in>set (st_pillar_max st).
        in_double_range (dict_get (st_pillar_risk st) (fst item) 0) (snd item)) \<longleftrightarrow>
      (\<forall>p\<in>set (pillars qs).
        in_double_range (unsafe_weight ans (in_pillar p qs)) (total_weight (in_pillar p qs)))"
    using pmax by (auto simp: prisk)
  have pl: "pillar_loop (st_pillar_risk st) (st_pillar_max st) [] =
     (if \<forall>p\<in>set (pillars qs).
          in_double_range (unsafe_weight ans (in_pillar p qs)) (total_weight (in_pillar p qs))
      then Inr (map (\<lambda>p. (p, pillar_score ans qs p)) (first_occurrences (pillars qs)))
      else Inl OverflowError)"
    by (simp add: pillar_loop_fresh [OF dist] all_in_range scores)
  show ?thesis
  proof (cases "total_weight qs = 0")
    case True
    then show ?thesis
      by (simp add: calculate_scores_def sum loop pl rp no_overflow_def closed_form_def
          in_double_range_def overall_risk_percentage_def tier_def Let_def)
  next
    case nonzero: False
    show ?thesis
    proof (cases "in_double_range (unsafe_weight ans qs) (total_weight qs)")
      case True
      then show ?thesis
        using nonzero
        by (simp add: calculate_scores_def sum loop pl rp no_overflow_def closed_form_def
            true_divide_in_range overall_risk_percentage_def tier_def Let_def)
    next
      case False
      then show ?thesis
        using nonzero
        by (simp add: calculate_scores_def sum loop rp no_overflow_def
            true_divide_out_of_range)
    qed
  qed
qed

lemma calculate_scores_Inr_well_formed:
  "calculate_scores qs ans = Inr r \<Longrightarrow> \<forall>q\<in>set qs. well_formed q"
  by (auto simp: calculate_scores_def split: sum.splits dest: score_loop_Inr_well_formed)

lemma calculate_scores_Inr_closed_form:
  assumes "calculate_scores qs ans = Inr r"
  shows "r = closed_form ans qs"
proof -
  from assms have wf: "\<forall>q\<in>set qs. well_formed q"
    by (rule calculate_scores_Inr_well_formed)
  from assms show ?thesis
    by (simp add: calculate_scores_cases [OF wf] split: if_splits)
qed

lemma total_weight_filter:
  "total_weight (filter P qs) = (\<Sum>q\<leftarrow>qs. if P q then the (weight q) else 0)"
  by (simp add: total_weight_def sum_list_map_filter')

lemma unsafe_weight_bounds:
  "\<forall>q\<in>set qs. \<exists>w. weight q = Some w \<and> 0 \<le> w \<Longrightarrow>
     0 \<le> unsafe_weight ans qs \<and> unsafe_weight ans qs \<le> total_weight qs"
  by (induction qs) (auto simp: unsafe_weight_def total_weight_def)


lemma nonneg_no_overflow:
  assumes nonneg: "\<forall>q\<in>set qs. \<exists>w. weight q = Some w \<and> 0 \<le> w"
  shows "no_overflow ans qs"
proof -
  have within: "in_double_range (unsafe_weight ans xs) (total_weight xs)"
    if "\<forall>q\<in>set xs. \<exists>w. weight q = Some w \<and> 0 \<le> w" for xs
  proof -
    from unsafe_weight_bounds [OF that, of ans]
    have "\<bar>unsafe_weight ans xs\<bar> \<le> \<bar>total_weight xs\<bar>" by simp
    then show ?thesis by (rule in_double_range_within)
  qed
  have "\<forall>q\<in>set (in_pillar p qs). \<exists>w. weight q = Some w \<and> 0 \<le> w" for p
    using nonneg by (simp add: in_pillar_def)
  with nonneg show ?thesis
    by (simp add: no_overflow_def within)
qed

lemma no_unsafe_no_overflow:
  assumes none: "filter (answered_unsafely ans) qs = []"
  shows "no_overflow ans qs"
proof -
  have "filter (answered_unsafely ans) (in_pillar p qs) = []" for p
    using none by (auto simp: filter_empty_conv in_pillar_def)
  then have "unsafe_weight ans (in_pillar p qs) = 0" for p
    by (simp add: unsafe_weight_def total_weight_def)
  moreover have "unsafe_weight ans qs = 0"
    by (simp add: unsafe_weight_def none total_weight_def)
  ultimately show ?thesis
    by (simp add: no_overflow_def in_double_range_within)
qed

lemma calculate_scores_nonneg:
  assumes wf: "\<forall>q\<in>set qs. well_formed q"
      and nonneg: "\<forall>q\<in>set qs. \<exists>w. weight q = Some w \<and> 0 \<le> w"
  shows "calculate_scores qs ans = Inr (closed_form ans qs)"
  by (simp add: calculate_scores_cases [OF wf] nonneg_no_overflow [OF nonneg])

lemma map_filter_snoc:
  "List.map_filter f (xs @ [x]) =
     List.map_filter f xs @ (case f x of None \<Rightarrow> [] | Some y \<Rightarrow> [y])"
  by (simp add: List.map_filter_def split: option.splits)

lemma rec_loop_snoc:
  "rec_loop rmap ans (qs @ [q]) recs =
     (case rec_loop rmap ans qs recs of Inl e \<Rightarrow> Inl e | Inr r \<Rightarrow> rec_step rmap ans r q)"
  by (induction qs arbitrary: recs) (auto split: sum.splits)

lemma rec_step_present:
  "qid q = Some i \<Longrightarrow>
   rec_step rmap ans recs q =
     Inr (case qualifying_text rmap ans q of
            None \<Rightarrow> recs
          | Some t \<Rightarrow> if t \<in> set recs then recs else recs @ [t])"
  by (auto simp: rec_step_def qualifying_text_def answered_unsafely_def get_good_answer_def
      Let_def split: option.splits)

lemma rec_loop_closed_form:
  "\<forall>q\<in>set qs. qid q \<noteq> None \<Longrightarrow>
   rec_loop rmap ans qs [] =
     Inr (first_occurrences (List.map_filter (qualifying_text rmap ans) qs))"
proof (induction qs rule: rev_induct)
  case Nil
  show ?case by (simp add: List.map_filter_def)
next
  case (snoc q qs)
  then obtain i where i: "qid q = Some i" by auto
  from snoc have IH: "rec_loop rmap ans qs [] =
     Inr (first_occurrences (List.map_filter (qualifying_text rmap ans) qs))" by simp
  show ?case
    by (simp add: rec_loop_snoc IH rec_step_present [OF i] map_filter_snoc
        first_occurrences_snoc split: option.splits)
qed

lemma recommendation_texts_nonempty:
  "map_of recommendation_map i = Some t \<Longrightarrow> t \<noteq> []"
proof -
  have all: "\<forall>e\<in>set recommendation_map. snd e \<noteq> []"
    by (simp add: recommendation_map_def)
  assume "map_of recommendation_map i = Some t"
  then have "(i, t) \<in> set recommendation_map" by (rule map_of_SomeD)
  with all show ?thesis by fastforce
qed

lemma score_step_cong:
  "(\<And>i. qid q = Some i \<Longrightarrow> ans' i = ans i) \<Longrightarrow> score_step ans' st q = score_step ans st q"
  by (simp add: score_step_def split: option.splits)

lemma score_loop_cong:
  "\<forall>q\<in>set qs. \<forall>i. qid q = Some i \<longrightarrow> ans' i = ans i \<Longrightarrow>
   score_loop ans' qs st = score_loop ans qs st"
proof (induction qs arbitrary: st)
  case Nil
  show ?case by simp
next
  case (Cons q qs)
  have step: "score_step ans' st q = score_step ans st q"
    using Cons.prems by (intro score_step_cong) simp
  have rest: "score_loop ans' qs st' = score_loop ans qs st'" for st'
    using Cons.prems by (intro Cons.IH) simp
  show ?case
    by (simp add: step rest split: sum.splits)
qed

lemma rec_step_cong:
  "(\<And>i. qid q = Some i \<Longrightarrow> ans' i = ans i) \<Longrightarrow> rec_step rmap ans' recs q = rec_step rmap ans recs q"
  by (simp add: rec_step_def split: option.splits)

lemma rec_loop_cong:
  "\<forall>q\<in>set qs. \<forall>i. qid q = Some i \<longrightarrow> ans' i = ans i \<Longrightarrow>
   rec_loop rmap ans' qs recs = rec_loop rmap ans qs recs"
proof (induction qs arbitrary: recs)
  case Nil
  show ?case by simp
next
  case (Cons q qs)
  have step: "rec_step rmap ans' recs q = rec_step rmap ans recs q"
    using Cons.prems by (intro rec_step_cong) simp
  have rest: "rec_loop rmap ans' qs recs' = rec_loop rmap ans qs recs'" for recs'
    using Cons.prems by (intro Cons.IH) simp
  show ?case
    by (simp add: step rest split: sum.splits)
qed

lemma all_good_not_unsafe:
  "\<forall>q\<in>set qs. \<exists>i. qid q = Some i \<and> ans i = Some (get_good_answer q) \<Longrightarrow>
   filter (answered_unsafely ans) qs = []"
  by (auto simp: filter_empty_conv answered_unsafely_def get_good_answer_def)

lemma score_loop_append:
  "score_loop ans (pre @ post) st =
     (case score_loop ans pre st of Inl e \<Rightarrow> Inl e | Inr st' \<Rightarrow> score_loop ans post st')"
  by (induction pre arbitrary: st) (auto split: sum.splits)

lemma score_step_missing_key:
  "weight q \<noteq> None \<Longrightarrow> \<not> well_formed q \<Longrightarrow>
   score_step ans st q = Inl (KeyError (if pillar q = None then ''pillar'' else ''id''))"
  by (auto simp: score_step_def well_formed_def split: option.splits)

lemma missing_weight_raises:
  "\<exists>q\<in>set qs. weight q = None \<Longrightarrow> calculate_scores qs ans = Inl (KeyError ''weight'')"
  by (simp add: calculate_scores_def sum_weights_missing)

lemma first_defect_raises:
  assumes qs: "qs = pre @ q # post"
      and weights: "\<forall>x\<in>set qs. weight x \<noteq> None"
      and pre: "\<forall>x\<in>set pre. well_formed x"
      and q: "\<not> well_formed q"
  shows "\<exists>st. score_loop ans pre initial_state = Inr st \<and>
              score_step ans st q = Inl (KeyError (if pillar q = None then ''pillar'' else ''id'')) \<and>
              calculate_scores qs ans =
                Inl (KeyError (if pillar q = None then ''pillar'' else ''id''))"
proof -
  from score_loop_inv [OF pre] obtain st where st: "score_loop ans pre initial_state = Inr st"
    by blast
  from weights qs have "weight q \<noteq> None" by simp
  then have step: "score_step ans st q =
      Inl (KeyError (if pillar q = None then ''pillar'' else ''id''))"
    using q by (rule score_step_missing_key)
  have loop: "score_loop ans qs initial_state =
      Inl (KeyError (if pillar q = None then ''pillar'' else ''id''))"
    unfolding qs score_loop_append st by (simp add: step)
  have sum: "sum_weights qs 0 = Inr (total_weight qs)"
    using weights by (simp add: sum_weights_present)
  have "calculate_scores qs ans =
      Inl (KeyError (if pillar q = None then ''pillar'' else ''id''))"
    unfolding calculate_scores_def sum loop by simp
  with st step show ?thesis by blast
qed

lemmas ex_defs = ex_q1_def ex_q2_def ex_q3_def ex_q4_def ex_answers_def

lemmas run_defs = calculate_scores_def initial_state_def score_step_def get_good_answer_def
  dict_get_def dict_setdefault_def Let_def

lemma ex_scenario:
  "calculate_scores [ex_q1, ex_q2] ex_answers =
     Inr (\<lparr>risk_points = 10, max_risk = 30, risk_percentage = 100 / 3,
            security_score = 200 / 3, risk_level = ''MEDIUM''\<rparr>,
          [(''Identify'', 0), (''Protect'', 100)])"
  by (simp add: ex_defs run_defs true_divide_within)

lemma ex_score_80:
  "calculate_scores [ex_q1, ex_q2, ex_q3] ex_answers =
     Inr (\<lparr>risk_points = 10, max_risk = 50, risk_percentage = 20,
            security_score = 80, risk_level = ''LOW''\<rparr>,
          [(''Identify'', 0), (''Protect'', 100)])"
  by (simp add: ex_defs run_defs true_divide_within)

lemma ex_score_50:
  "calculate_scores [ex_q1, ex_q4] ex_answers =
     Inr (\<lparr>risk_points = 10, max_risk = 20, risk_percentage = 50,
            security_score = 50, risk_level = ''MEDIUM''\<rparr>,
          [(''Identify'', 50)])"
  by (simp add: ex_defs run_defs true_divide_within)

text \<open>
  With weights of mixed sign the quotient can leave the range of a double; the call then
  raises \<^verbatim>\<open>OverflowError\<close> although every key is present.
\<close>

lemma ex_overflow:
  "well_formed ex_huge \<and> well_formed ex_huge_negative \<and>
   calculate_scores [ex_huge, ex_huge_negative] [''a'' \<mapsto> ''no'', ''b'' \<mapsto> ''yes''] =
     Inl OverflowError"
  by (simp add: well_formed_def ex_huge_def ex_huge_negative_def run_defs true_divide_def
      double_overflow_bound_def)

section \<open>Properties\<close>



text \<open>
  C2. Whenever \<open>calculate_scores\<close> returns, the risk level of the summary is \<open>LOW\<close>
  exactly when the security score is at least 80, \<open>MEDIUM\<close> exactly when it is at least 50
  and below 80, and \<open>HIGH\<close> exactly when it is below 50. The examples after the theorem
  have a score of exactly 80 (level \<open>LOW\<close>) and of exactly 50 (level \<open>MEDIUM\<close>).
\<close>

theorem risk_level_tiers:
  assumes "calculate_scores qs ans = Inr (s, ps)"
  shows "(risk_level s = ''LOW'' \<longleftrightarrow> 80 \<le> security_score s) \<and>
         (risk_level s = ''MEDIUM'' \<longleftrightarrow> 50 \<le> security_score s \<and> security_score s < 80) \<and>
         (risk_level s = ''HIGH'' \<longleftrightarrow> security_score s < 50)"
proof -
  from calculate_scores_Inr_closed_form [OF assms]
  have "risk_level s = tier (security_score s)"
    by (auto simp add: closed_form_def)
  then show ?thesis
    by (simp add: tier_def)
qed

theorem risk_level_tiers_witness:
  "(\<exists>s ps. calculate_scores [ex_q1, ex_q2, ex_q3] ex_answers = Inr (s, ps) \<and>
      security_score s = 80 \<and> risk_level s = ''LOW'') \<and>
   (\<exists>s ps. calculate_scores [ex_q1, ex_q4] ex_answers = Inr (s, ps) \<and>
      security_score s = 50 \<and> risk_level s = ''MEDIUM'')"
  using risk_level_tiers [OF ex_score_80] risk_level_tiers [OF ex_score_50]
  by (simp add: ex_score_80 ex_score_50)

text \<open>
  C3. On a catalog whose questions carry id, pillar and weight, the scoring loop ends with
  risk points equal to the sum of the weights of the questions answered unsafely, and with
  a risk for each pillar equal to that sum over the questions of the pillar; a returned
  summary reports these risk points. A question is answered unsafely when the answers hold
  an entry for its id that differs from its good answer (\<open>yes\<close> when the question has no
  \<^verbatim>\<open>good_answer\<close> key); a question with no entry adds nothing. The summary is returned
  as soon as the weights are non-negative.
\<close>

theorem risk_counts_unsafe_answers_only:
  assumes wf: "\<forall>q\<in>set qs. well_formed q"
  shows "\<exists>st.
     score_loop ans qs initial_state = Inr st \<and>
     st_risk_points st = (\<Sum>q\<leftarrow>qs. if answered_unsafely ans q then the (weight q) else 0) \<and>
     (\<forall>p. dict_get (st_pillar_risk st) p 0 =
        (\<Sum>q\<leftarrow>qs. if pillar q = Some p \<and> answered_unsafely ans q then the (weight q) else 0)) \<and>
     (\<forall>s ps. calculate_scores qs ans = Inr (s, ps) \<longrightarrow> risk_points s = st_risk_points st) \<and>
     ((\<forall>q\<in>set qs. \<exists>w. weight q = Some w \<and> 0 \<le> w) \<longrightarrow>
        (\<exists>s ps. calculate_scores qs ans = Inr (s, ps)))"
proof -
  from score_loop_inv [OF wf] obtain st where
    loop: "score_loop ans qs initial_state = Inr st" and inv: "loop_inv ans qs st"
    by blast
  have rp: "st_risk_points st =
      (\<Sum>q\<leftarrow>qs. if answered_unsafely ans q then the (weight q) else 0)"
    using inv by (simp add: loop_inv_def unsafe_weight_def total_weight_filter)
  have pr: "dict_get (st_pillar_risk st) p 0 =
      (\<Sum>q\<leftarrow>qs. if pillar q = Some p \<and> answered_unsafely ans q then the (weight q) else 0)" for p
    using inv
    by (simp add: loop_inv_def unsafe_weight_def in_pillar_def total_weight_filter conj_commute)
  have ret: "risk_points s = st_risk_points st"
    if "calculate_scores qs ans = Inr (s, ps)" for s ps
    using calculate_scores_Inr_closed_form [OF that] inv
    by (auto simp add: closed_form_def loop_inv_def)
  have total: "\<exists>s ps. calculate_scores qs ans = Inr (s, ps)"
    if "\<forall>q\<in>set qs. \<exists>w. weight q = Some w \<and> 0 \<le> w"
    by (simp add: calculate_scores_nonneg [OF wf that] closed_form_def)
  from loop rp pr ret total show ?thesis by blast
qed

theorem risk_counts_unsafe_answers_only_witness:
  "\<exists>s ps st.
     calculate_scores [ex_q1, ex_q2, ex_q3] [''Q1'' \<mapsto> ''no'', ''Q2'' \<mapsto> ''yes''] = Inr (s, ps) \<and>
     score_loop [''Q1'' \<mapsto> ''no'', ''Q2'' \<mapsto> ''yes''] [ex_q1, ex_q2, ex_q3] initial_state = Inr st \<and>
     risk_points s = 10 \<and>
     dict_get (st_pillar_risk st) ''Identify'' 0 = 10 \<and>
     dict_get (st_pillar_risk st) ''Protect'' 0 = 0"
proof -
  let ?ans = "[''Q1'' \<mapsto> ''no'', ''Q2'' \<mapsto> ''yes'']"
  let ?qs = "[ex_q1, ex_q2, ex_q3]"
  have wf: "\<forall>q\<in>set ?qs. well_formed q"
    by (simp add: ex_defs well_formed_def)
  have nonneg: "\<forall>q\<in>set ?qs. \<exists>w. weight q = Some w \<and> 0 \<le> w"
    by (simp add: ex_defs)
  from risk_counts_unsafe_answers_only [OF wf, of ?ans] nonneg obtain s ps st where
    ret: "calculate_scores ?qs ?ans = Inr (s, ps)" and
    loop: "score_loop ?ans ?qs initial_state = Inr st" and
    rp: "risk_points s = st_risk_points st"
        "st_risk_points st = (\<Sum>q\<leftarrow>?qs. if answered_unsafely ?ans q then the (weight q) else 0)" and
    pr: "\<And>p. dict_get (st_pillar_risk st) p 0 =
        (\<Sum>q\<leftarrow>?qs. if pillar q = Some p \<and> answered_unsafely ?ans q then the (weight q) else 0)"
    by blast
  have "risk_points s = 10"
    using rp by (simp add: ex_defs answered_unsafely_def)
  moreover have "dict_get (st_pillar_risk st) ''Identify'' 0 = 10"
    by (simp add: pr ex_defs answered_unsafely_def)
  moreover have "dict_get (st_pillar_risk st) ''Protect'' 0 = 0"
    by (simp add: pr ex_defs answered_unsafely_def)
  ultimately show ?thesis
    using ret loop by blast
qed

text \<open>
  C4, as amended. \<open>calculate_scores\<close> has no validation pass. If some question lacks a
  weight, a pillar or an id, no summary is returned and the call raises \<open>KeyError\<close>: for
  the key \<open>weight\<close>, from the initial sum and before the scoring loop, whenever some
  question lacks a weight; otherwise for the key \<open>pillar\<close> or \<open>id\<close>, from inside the
  scoring loop at the first defective question, after the questions before it have been
  accumulated.
\<close>

theorem missing_key_raises_KeyError:
  assumes bad: "\<exists>q\<in>set qs. \<not> well_formed q"
  shows "(\<exists>k. calculate_scores qs ans = Inl (KeyError k) \<and>
              (k = ''weight'' \<or> k = ''pillar'' \<or> k = ''id'')) \<and>
         ((\<exists>q\<in>set qs. weight q = None) \<longrightarrow>
            calculate_scores qs ans = Inl (KeyError ''weight'')) \<and>
         (\<forall>pre q post.
            qs = pre @ q # post \<and> (\<forall>x\<in>set qs. weight x \<noteq> None) \<and>
            (\<forall>x\<in>set pre. well_formed x) \<and> \<not> well_formed q \<longrightarrow>
            (\<exists>st. score_loop ans pre initial_state = Inr st \<and>
                  score_step ans st q =
                    Inl (KeyError (if pillar q = None then ''pillar'' else ''id'')) \<and>
                  calculate_scores qs ans =
                    Inl (KeyError (if pillar q = None then ''pillar'' else ''id''))))"
proof (intro conjI allI impI)
  show "\<exists>k. calculate_scores qs ans = Inl (KeyError k) \<and>
            (k = ''weight'' \<or> k = ''pillar'' \<or> k = ''id'')"
  proof (cases "\<exists>q\<in>set qs. weight q = None")
    case True
    then show ?thesis by (simp add: missing_weight_raises)
  next
    case False
    then have weights: "\<forall>x\<in>set qs. weight x \<noteq> None" by simp
    from split_list_first_prop [OF bad] obtain pre q post where
      qs: "qs = pre @ q # post" and q: "\<not> well_formed q" and
      pre: "\<forall>x\<in>set pre. \<not> \<not> well_formed x"
      by blast
    from pre have pre': "\<forall>x\<in>set pre. well_formed x" by simp
    from first_defect_raises [OF qs weights pre' q, of ans] show ?thesis
      by (cases "pillar q = None") auto
  qed
next
  assume "\<exists>q\<in>set qs. weight q = None"
  then show "calculate_scores qs ans = Inl (KeyError ''weight'')"
    by (rule missing_weight_raises)
next
  fix pre q post
  assume "qs = pre @ q # post \<and> (\<forall>x\<in>set qs. weight x \<noteq> None) \<and>
          (\<forall>x\<in>set pre. well_formed x) \<and> \<not> well_formed q"
  then show "\<exists>st. score_loop ans pre initial_state = Inr st \<and>
                  score_step ans st q =
                    Inl (KeyError (if pillar q = None then ''pillar'' else ''id'')) \<and>
                  calculate_scores qs ans =
                    Inl (KeyError (if pillar q = None then ''pillar'' else ''id''))"
    by (intro first_defect_raises) simp_all
qed

theorem missing_key_raises_KeyError_witness:
  "calculate_scores [ex_q1, ex_no_pillar] ex_answers = Inl (KeyError ''pillar'') \<and>
   (\<exists>st. score_loop ex_answers [ex_q1] initial_state = Inr st \<and>
         score_step ex_answers st ex_no_pillar = Inl (KeyError ''pillar''))"
proof -
  have bad: "\<exists>q\<in>set [ex_q1, ex_no_pillar]. \<not> well_formed q"
    by (simp add: well_formed_def ex_no_pillar_def)
  have split: "[ex_q1, ex_no_pillar] = [ex_q1] @ ex_no_pillar # [] \<and>
      (\<forall>x\<in>set [ex_q1, ex_no_pillar]. weight x \<noteq> None) \<and>
      (\<forall>x\<in>set [ex_q1]. well_formed x) \<and> \<not> well_formed ex_no_pillar"
    by (simp add: well_formed_def ex_no_pillar_def ex_q1_def)
  have key: "(if pillar ex_no_pillar = None then ''pillar'' else ''id'') = ''pillar''"
    by (simp add: ex_no_pillar_def)
  from missing_key_raises_KeyError [OF bad, of ex_answers] split
  have "\<exists>st. score_loop ex_answers [ex_q1] initial_state = Inr st \<and>
          score_step ex_answers st ex_no_pillar =
            Inl (KeyError (if pillar ex_no_pillar = None then ''pillar'' else ''id'')) \<and>
          calculate_scores [ex_q1, ex_no_pillar] ex_answers =
            Inl (KeyError (if pillar ex_no_pillar = None then ''pillar'' else ''id''))"
    by blast
  then show ?thesis
    unfolding key by blast
qed

text \<open>
  C4, as first stated, fails on the catalog below: its second question has no pillar. The
  sum of the weights succeeds, the first question is scored (10 risk points are
  accumulated), and only then does the loop raise \<open>KeyError\<close> for \<open>pillar\<close>.
\<close>

theorem missing_pillar_raises_inside_loop:
  "\<not> well_formed ex_no_pillar \<and>
   sum_weights [ex_q1, ex_no_pillar] 0 = Inr 30 \<and>
   score_step ex_answers initial_state ex_q1 =
     Inr \<lparr>st_risk_points = 10, st_pillar_max = [(''Identify'', 10)],
          st_pillar_risk = [(''Identify'', 10)]\<rparr> \<and>
   score_step ex_answers
     \<lparr>st_risk_points = 10, st_pillar_max = [(''Identify'', 10)],
      st_pillar_risk = [(''Identify'', 10)]\<rparr> ex_no_pillar = Inl (KeyError ''pillar'') \<and>
   calculate_scores [ex_q1, ex_no_pillar] ex_answers = Inl (KeyError ''pillar'')"
  by (simp add: well_formed_def ex_no_pillar_def ex_defs run_defs)

text \<open>
  C5. On the empty catalog, whatever the answers, the summary has \<open>max_risk = 0\<close>,
  \<open>risk_percentage = 0\<close>, \<open>security_score = 100\<close> and \<open>risk_level = LOW\<close> (and
  \<open>risk_points = 0\<close>), and the per-pillar mapping is empty.
\<close>

theorem empty_catalog:
  "calculate_scores [] answers =
     Inr (\<lparr>risk_points = 0, max_risk = 0, risk_percentage = 0,
            security_score = 100, risk_level = ''LOW''\<rparr>, [])"
  by (simp add: calculate_scores_def initial_state_def)

text \<open>
  C6. On a catalog whose questions carry id, pillar and weight, a returned per-pillar
  mapping has one entry for each pillar of the catalog, in the order in which the pillars
  first appear; the score of a pillar is 100 when the weights of its questions sum to 0
  and \<open>100 - (pillar_risk / pillar_max) * 100\<close> otherwise (\<open>pillar_score\<close>). The mapping
  is returned as soon as the weights are non-negative.
\<close>

theorem pillar_scores_by_first_appearance:
  assumes wf: "\<forall>q\<in>set qs. well_formed q"
  shows "(\<forall>s ps. calculate_scores qs ans = Inr (s, ps) \<longrightarrow>
            map fst ps = first_occurrences (pillars qs) \<and>
            distinct (map fst ps) \<and>
            set (map fst ps) = set (pillars qs) \<and>
            ps = map (\<lambda>p. (p, pillar_score ans qs p)) (map fst ps)) \<and>
         ((\<forall>q\<in>set qs. \<exists>w. weight q = Some w \<and> 0 \<le> w) \<longrightarrow>
            (\<exists>s ps. calculate_scores qs ans = Inr (s, ps)))"
proof (intro conjI allI impI)
  fix s ps
  assume "calculate_scores qs ans = Inr (s, ps)"
  from calculate_scores_Inr_closed_form [OF this]
  have ps: "ps = map (\<lambda>p. (p, pillar_score ans qs p)) (first_occurrences (pillars qs))"
    by (simp add: closed_form_def)
  then show keys: "map fst ps = first_occurrences (pillars qs)"
    by (simp add: comp_def)
  then show "distinct (map fst ps)" "set (map fst ps) = set (pillars qs)"
    by (simp_all del: set_map)
  from ps show "ps = map (\<lambda>p. (p, pillar_score ans qs p)) (map fst ps)"
    unfolding keys .
next
  assume "\<forall>q\<in>set qs. \<exists>w. weight q = Some w \<and> 0 \<le> w"
  then show "\<exists>s ps. calculate_scores qs ans = Inr (s, ps)"
    by (simp add: calculate_scores_nonneg [OF wf] closed_form_def)
qed

theorem pillar_scores_by_first_appearance_witness:
  "\<exists>s. calculate_scores [ex_q1, ex_q2, ex_q4] ex_answers =
          Inr (s, [(''Identify'', 50), (''Protect'', 100)])"
proof -
  let ?qs = "[ex_q1, ex_q2, ex_q4]"
  have wf: "\<forall>q\<in>set ?qs. well_formed q"
    by (simp add: ex_defs well_formed_def)
  have nonneg: "\<forall>q\<in>set ?qs. \<exists>w. weight q = Some w \<and> 0 \<le> w"
    by (simp add: ex_defs)
  from pillar_scores_by_first_appearance [OF wf, of ex_answers] nonneg obtain s ps where
    ret: "calculate_scores ?qs ex_answers = Inr (s, ps)" and
    keys: "map fst ps = first_occurrences (pillars ?qs)" and
    ps: "ps = map (\<lambda>p. (p, pillar_score ex_answers ?qs p)) (map fst ps)"
    by blast
  have order: "first_occurrences (pillars ?qs) = [''Identify'', ''Protect'']"
    by (simp add: pillars_def ex_defs)
  have identify: "pillar_score ex_answers ?qs ''Identify'' = 50"
    by (simp add: pillar_score_def in_pillar_def unsafe_weight_def total_weight_def
        answered_unsafely_def ex_defs)
  have protect: "pillar_score ex_answers ?qs ''Protect'' = 100"
    by (simp add: pillar_score_def in_pillar_def unsafe_weight_def total_weight_def
        answered_unsafely_def ex_defs)
  have "ps = [(''Identify'', 50), (''Protect'', 100)]"
    using ps unfolding keys order by (simp add: identify protect)
  with ret show ?thesis by blast
qed

text \<open>
  C7. On a catalog whose questions carry an id, the recommendations are the texts of the
  qualifying questions in catalog order, each text kept at its first occurrence only. A
  question qualifies when it was answered unsafely and the table maps its id to a
  (non-empty) text; a question whose id the table does not map is passed over without an
  error. This holds for the loop over any table, hence for the built-in table. Step by
  step: a further question appends its text exactly when it was answered unsafely, its id
  is mapped, and the text is not yet in the list.
\<close>

theorem recommendations_in_catalog_order:
  assumes ids: "\<forall>q\<in>set qs. qid q \<noteq> None" and i: "qid q = Some i"
  shows "rec_loop rmap ans qs [] =
           Inr (first_occurrences (List.map_filter (qualifying_text rmap ans) qs)) \<and>
         generate_recommendations qs ans =
           Inr (first_occurrences (List.map_filter (qualifying_text recommendation_map ans) qs)) \<and>
         (\<exists>recs. generate_recommendations qs ans = Inr recs \<and>
            generate_recommendations (qs @ [q]) ans =
              Inr (case map_of recommendation_map i of
                     None \<Rightarrow> recs
                   | Some t \<Rightarrow>
                       if answered_unsafely ans q \<and> t \<notin> set recs then recs @ [t] else recs))"
proof (intro conjI)
  show "rec_loop rmap ans qs [] =
      Inr (first_occurrences (List.map_filter (qualifying_text rmap ans) qs))"
    by (rule rec_loop_closed_form [OF ids])
  show closed: "generate_recommendations qs ans =
      Inr (first_occurrences (List.map_filter (qualifying_text recommendation_map ans) qs))"
    unfolding generate_recommendations_def by (rule rec_loop_closed_form [OF ids])
  have "qualifying_text recommendation_map ans q =
      (case map_of recommendation_map i of
         None \<Rightarrow> None
       | Some t \<Rightarrow> if answered_unsafely ans q then Some t else None)"
    using i by (auto simp: qualifying_text_def split: option.splits
        dest: recommendation_texts_nonempty)
  then have "generate_recommendations (qs @ [q]) ans =
      Inr (case map_of recommendation_map i of
             None \<Rightarrow> first_occurrences (List.map_filter (qualifying_text recommendation_map ans) qs)
           | Some t \<Rightarrow>
               if answered_unsafely ans q \<and>
                  t \<notin> set (first_occurrences (List.map_filter (qualifying_text recommendation_map ans) qs))
               then first_occurrences (List.map_filter (qualifying_text recommendation_map ans) qs) @ [t]
               else first_occurrences (List.map_filter (qualifying_text recommendation_map ans) qs))"
    using closed
    by (simp add: generate_recommendations_def rec_loop_snoc rec_step_present [OF i]
        split: option.splits)
  with closed show "\<exists>recs. generate_recommendations qs ans = Inr recs \<and>
            generate_recommendations (qs @ [q]) ans =
              Inr (case map_of recommendation_map i of
                     None \<Rightarrow> recs
                   | Some t \<Rightarrow>
                       if answered_unsafely ans q \<and> t \<notin> set recs then recs @ [t] else recs)"
    by simp
qed

theorem recommendations_in_catalog_order_witness:
  "rec_loop [(''Q1'', ''patch''), (''Q3'', ''patch'')] [''Q1'' \<mapsto> ''no'', ''Q3'' \<mapsto> ''no'']
     [ex_q1, ex_q2, ex_q3] [] = Inr [''patch''] \<and>
   generate_recommendations [ex_q1, ex_q2, ex_q3] [''Q1'' \<mapsto> ''no'', ''Q3'' \<mapsto> ''no''] =
     Inr [ex_text_q1,
          ''Identify where sensitive data is stored, label it (e.g. confidential), and limit where it is copied or shared.''] \<and>
   generate_recommendations ([ex_q1, ex_q2, ex_q3] @ [ex_q1]) [''Q1'' \<mapsto> ''no'', ''Q3'' \<mapsto> ''no''] =
     Inr [ex_text_q1,
          ''Identify where sensitive data is stored, label it (e.g. confidential), and limit where it is copied or shared.'']"
proof -
  let ?ans = "[''Q1'' \<mapsto> ''no'', ''Q3'' \<mapsto> ''no'']"
  let ?qs = "[ex_q1, ex_q2, ex_q3]"
  let ?rmap = "[(''Q1'', ''patch''), (''Q3'', ''patch'')]"
  have ids: "\<forall>q\<in>set ?qs. qid q \<noteq> None"
    by (simp add: ex_defs)
  have i: "qid ex_q1 = Some ''Q1''"
    by (simp add: ex_defs)
  have unsafe: "answered_unsafely ?ans ex_q1" "\<not> answered_unsafely ?ans ex_q2"
      "answered_unsafely ?ans ex_q3"
    by (simp_all add: answered_unsafely_def ex_defs)
  have ids': "the (qid ex_q1) = ''Q1''" "the (qid ex_q3) = ''Q3''"
    by (simp_all add: ex_defs)
  have lookup: "map_of recommendation_map ''Q1'' = Some ex_text_q1"
      "map_of recommendation_map ''Q3'' =
         Some ''Identify where sensitive data is stored, label it (e.g. confidential), and limit where it is copied or shared.''"
    by (simp_all add: recommendation_map_def ex_text_q1_def)
  have small: "List.map_filter (qualifying_text ?rmap ?ans) ?qs = [''patch'', ''patch'']"
    by (simp add: List.map_filter_def qualifying_text_def unsafe ids')
  have builtin: "List.map_filter (qualifying_text recommendation_map ?ans) ?qs =
      [ex_text_q1,
       ''Identify where sensitive data is stored, label it (e.g. confidential), and limit where it is copied or shared.'']"
    by (simp add: List.map_filter_def qualifying_text_def unsafe ids' lookup ex_text_q1_def)
  from recommendations_in_catalog_order [OF ids i, of ?rmap ?ans]
  show ?thesis
    unfolding small builtin lookup by (auto simp add: unsafe ex_text_q1_def)
qed

text \<open>
  C8. On a valid catalog, that is one whose questions carry id, pillar and a non-negative
  weight, both functions return for every answers mapping (the empty one included), and
  two answers mappings that agree on the ids of the catalog give the same results: entries
  for other ids change nothing.
\<close>

theorem no_scoring_time_errors:
  assumes wf: "\<forall>q\<in>set qs. well_formed q"
      and nonneg: "\<forall>q\<in>set qs. \<exists>w. weight q = Some w \<and> 0 \<le> w"
  shows "(\<exists>s ps. calculate_scores qs ans = Inr (s, ps)) \<and>
         (\<exists>recs. generate_recommendations qs ans = Inr recs) \<and>
         (\<forall>ans'. (\<forall>q\<in>set qs. \<forall>i. qid q = Some i \<longrightarrow> ans' i = ans i) \<longrightarrow>
            calculate_scores qs ans' = calculate_scores qs ans \<and>
            generate_recommendations qs ans' = generate_recommendations qs ans)"
proof (intro conjI allI impI)
  show "\<exists>s ps. calculate_scores qs ans = Inr (s, ps)"
    by (simp add: calculate_scores_nonneg [OF wf nonneg] closed_form_def)
  from wf have ids: "\<forall>q\<in>set qs. qid q \<noteq> None"
    by (simp add: well_formed_def)
  show "\<exists>recs. generate_recommendations qs ans = Inr recs"
    by (simp add: generate_recommendations_def rec_loop_closed_form [OF ids])
next
  fix ans'
  assume agree: "\<forall>q\<in>set qs. \<forall>i. qid q = Some i \<longrightarrow> ans' i = ans i"
  show "calculate_scores qs ans' = calculate_scores qs ans"
    unfolding calculate_scores_def score_loop_cong [OF agree] by (rule refl)
  show "generate_recommendations qs ans' = generate_recommendations qs ans"
    by (simp add: generate_recommendations_def rec_loop_cong [OF agree])
qed

theorem no_scoring_time_errors_witness:
  "(\<exists>s ps. calculate_scores [ex_q1, ex_q2] Map.empty = Inr (s, ps)) \<and>
   (\<exists>recs. generate_recommendations [ex_q1, ex_q2] Map.empty = Inr recs) \<and>
   calculate_scores [ex_q1, ex_q2] (ex_answers(''Q99'' \<mapsto> ''no'')) =
     calculate_scores [ex_q1, ex_q2] ex_answers \<and>
   generate_recommendations [ex_q1, ex_q2] (ex_answers(''Q99'' \<mapsto> ''no'')) =
     generate_recommendations [ex_q1, ex_q2] ex_answers"
proof -
  have wf: "\<forall>q\<in>set [ex_q1, ex_q2]. well_formed q"
    by (simp add: ex_defs well_formed_def)
  have nonneg: "\<forall>q\<in>set [ex_q1, ex_q2]. \<exists>w. weight q = Some w \<and> 0 \<le> w"
    by (simp add: ex_defs)
  have agree: "\<forall>q\<in>set [ex_q1, ex_q2]. \<forall>i. qid q = Some i \<longrightarrow>
      (ex_answers(''Q99'' \<mapsto> ''no'')) i = ex_answers i"
    by (simp add: ex_defs)
  from no_scoring_time_errors [OF wf nonneg, of Map.empty]
       no_scoring_time_errors [OF wf nonneg, of ex_answers] agree
  show ?thesis by blast
qed

text \<open>
  C9. If the answers map the id of every question to the good answer of that question,
  then no recommendation is produced, and a summary returned by \<open>calculate_scores\<close> has
  \<open>risk_points = 0\<close>, \<open>security_score = 100\<close> and \<open>risk_level = LOW\<close>. The summary is
  returned as soon as the questions also carry a pillar and a weight.
\<close>

theorem all_good_answers_give_full_score:
  assumes good: "\<forall>q\<in>set qs. \<exists>i. qid q = Some i \<and> ans i = Some (get_good_answer q)"
  shows "generate_recommendations qs ans = Inr [] \<and>
         (\<forall>s ps. calculate_scores qs ans = Inr (s, ps) \<longrightarrow>
            risk_points s = 0 \<and> security_score s = 100 \<and> risk_level s = ''LOW'') \<and>
         ((\<forall>q\<in>set qs. pillar q \<noteq> None \<and> weight q \<noteq> None) \<longrightarrow>
            (\<exists>s ps. calculate_scores qs ans = Inr (s, ps)))"
proof (intro conjI allI impI)
  note none = all_good_not_unsafe [OF good]
  from good have ids: "\<forall>q\<in>set qs. qid q \<noteq> None" by auto
  have "List.map_filter (qualifying_text recommendation_map ans) qs = []"
    using none by (simp add: List.map_filter_def qualifying_text_def filter_empty_conv)
  then show "generate_recommendations qs ans = Inr []"
    by (simp add: generate_recommendations_def rec_loop_closed_form [OF ids])
  have zero: "unsafe_weight ans qs = 0"
    by (simp add: unsafe_weight_def none total_weight_def)
  then have pct: "overall_risk_percentage ans qs = 0"
    by (simp add: overall_risk_percentage_def)
  {
    fix s ps
    assume ret: "calculate_scores qs ans = Inr (s, ps)"
    from calculate_scores_Inr_closed_form [OF ret]
    show "risk_points s = 0" "security_score s = 100" "risk_level s = ''LOW''"
      by (auto simp add: closed_form_def zero pct tier_def)
  }
  assume "\<forall>q\<in>set qs. pillar q \<noteq> None \<and> weight q \<noteq> None"
  with ids have wf: "\<forall>q\<in>set qs. well_formed q"
    by (simp add: well_formed_def)
  show "\<exists>s ps. calculate_scores qs ans = Inr (s, ps)"
    by (simp add: calculate_scores_cases [OF wf] no_unsafe_no_overflow [OF none] closed_form_def)
qed

theorem all_good_answers_give_full_score_witness:
  "generate_recommendations [ex_q2, ex_q3, ex_q4] ex_answers = Inr [] \<and>
   (\<exists>s ps. calculate_scores [ex_q2, ex_q3, ex_q4] ex_answers = Inr (s, ps) \<and>
      risk_points s = 0 \<and> security_score s = 100 \<and> risk_level s = ''LOW'')"
proof -
  have good: "\<forall>q\<in>set [ex_q2, ex_q3, ex_q4].
      \<exists>i. qid q = Some i \<and> ex_answers i = Some (get_good_answer q)"
    by (simp add: ex_defs get_good_answer_def)
  have keys: "\<forall>q\<in>set [ex_q2, ex_q3, ex_q4]. pillar q \<noteq> None \<and> weight q \<noteq> None"
    by (simp add: ex_defs)
  from all_good_answers_give_full_score [OF good] keys
  show ?thesis by blast
qed

text \<open>
  C10. The test for an unsafe answer is inequality with the good answer only; membership
  in \<open>{yes, no}\<close> is never checked. On a catalog of one question, any answer other than
  the good answer adds the full weight to the risk points and emits the recommendation
  mapped to the id. The example after the theorem takes the answer \<open>maybe\<close>.
\<close>

theorem any_other_answer_counts_as_unsafe:
  assumes "qid q = Some i" "pillar q = Some p" "weight q = Some w"
      and "ans i = Some a" "a \<noteq> get_good_answer q"
      and "map_of recommendation_map i = Some t"
  shows "(\<exists>s ps. calculate_scores [q] ans = Inr (s, ps) \<and> risk_points s = w) \<and>
         generate_recommendations [q] ans = Inr [t]"
proof
  have wf: "\<forall>x\<in>set [q]. well_formed x"
    using assms by (simp add: well_formed_def)
  have unsafe: "answered_unsafely ans q"
    using assms by (simp add: answered_unsafely_def get_good_answer_def)
  then have weights: "unsafe_weight ans [q] = w" "total_weight [q] = w"
    "unsafe_weight ans (in_pillar p' [q]) = total_weight (in_pillar p' [q])" for p'
    using assms by (simp_all add: unsafe_weight_def total_weight_def in_pillar_def)
  have "no_overflow ans [q]"
    by (simp add: no_overflow_def weights in_double_range_within)
  then show "\<exists>s ps. calculate_scores [q] ans = Inr (s, ps) \<and> risk_points s = w"
    by (simp add: calculate_scores_cases [OF wf] closed_form_def weights)
  from assms(6) have "t \<noteq> []" by (rule recommendation_texts_nonempty)
  then show "generate_recommendations [q] ans = Inr [t]"
    using assms by (simp add: generate_recommendations_def rec_step_def Let_def)
qed

theorem any_other_answer_counts_as_unsafe_witness:
  "(\<exists>s ps. calculate_scores [ex_q1] [''Q1'' \<mapsto> ''maybe''] = Inr (s, ps) \<and> risk_points s = 10) \<and>
   generate_recommendations [ex_q1] [''Q1'' \<mapsto> ''maybe''] = Inr [ex_text_q1]"
proof -
  have q: "qid ex_q1 = Some ''Q1''" "pillar ex_q1 = Some ''Identify''" "weight ex_q1 = Some 10"
    by (simp_all add: ex_defs)
  have a: "[''Q1'' \<mapsto> ''maybe''] ''Q1'' = Some ''maybe''" "''maybe'' \<noteq> get_good_answer ex_q1"
    by (simp_all add: ex_defs get_good_answer_def)
  have t: "map_of recommendation_map ''Q1'' = Some ex_text_q1"
    by (simp add: recommendation_map_def ex_text_q1_def)
  from any_other_answer_counts_as_unsafe
    [where ans = "[''Q1'' \<mapsto> ''maybe'']" and a = "''maybe''", OF q a t]
  show ?thesis .
qed

end
